theory Spec2Isabelle
  imports Main
begin

section \<open>The resilient stream connection: createServerSideEventStream\<close>

text \<open>
  The function wraps one \<^verbatim>\<open>EventSource\<close> object (npm package \<^verbatim>\<open>eventsource\<close>, an external
  collaborator) and installs the handlers \<^verbatim>\<open>stream.onopen\<close> and \<^verbatim>\<open>stream.onerror\<close> and the
  configured event listeners. The mutable variables of the closure are \<^verbatim>\<open>retries\<close> (declared
  with \<^verbatim>\<open>let retries;\<close> and so \<^verbatim>\<open>undefined\<close> until the first assignment) and the stream with
  its \<^verbatim>\<open>readyState\<close>.
\<close>

datatype ready_state = CONNECTING | OPEN | CLOSED

text \<open>\<^verbatim>\<open>event.status\<close> of an error event: \<open>None\<close> is \<^verbatim>\<open>undefined\<close> (or \<^verbatim>\<open>null\<close>).\<close>

type_synonym status = "nat option"

definition STATUS_COMPLETE :: nat where
  "STATUS_COMPLETE = 204"

text \<open>
  The part of \<^verbatim>\<open>configuration\<close> that the control flow reads: \<^verbatim>\<open>configuration.retry.maxRetries\<close>
  (\<open>None\<close> when \<^verbatim>\<open>retry\<close> or \<^verbatim>\<open>maxRetries\<close> is missing) and the \<^verbatim>\<open>eventName\<close> of each entry of
  \<^verbatim>\<open>configuration.eventListeners\<close>, in order. The callbacks \<^verbatim>\<open>onopen\<close>, \<^verbatim>\<open>onerror\<close>,
  \<^verbatim>\<open>oncomplete\<close> default to \<^verbatim>\<open>noop\<close>; each invocation is recorded as an effect, whatever the
  callback is. \<^verbatim>\<open>retry.interval\<close> is only copied to the transport and is left out.
\<close>

record configuration =
  retry_maxRetries :: "nat option"
  eventListeners :: "string list"

text \<open>\<^verbatim>\<open>const _maxRetries = _configurationRetry.maxRetries || 0\<close>\<close>

definition maxRetries :: "configuration \<Rightarrow> nat" where
  "maxRetries cfg = (case retry_maxRetries cfg of None \<Rightarrow> 0 | Some m \<Rightarrow> m)"

datatype console_line = Connecting_to | Max_retries_reached nat

text \<open>
  What one handler invocation does to the outside: the callbacks of the configuration that it
  invokes (\<open>On_event i d\<close> is the handler of the \<open>i\<close>-th configured listener, called with
  \<^verbatim>\<open>event.data = d\<close>) and the lines it writes with \<^verbatim>\<open>console.log\<close>, in program order.
\<close>

datatype 'd effect =
    On_open
  | On_error status
  | On_complete
  | On_event nat 'd
  | Console_log console_line

record stream =
  readyState :: ready_state
  retries :: "nat option"

text \<open>
  \<^verbatim>\<open>retries < _maxRetries\<close>: with \<^verbatim>\<open>retries\<close> still \<^verbatim>\<open>undefined\<close> the comparison is between
  \<^verbatim>\<open>NaN\<close> and a number and is false.
\<close>

definition below :: "nat option \<Rightarrow> nat \<Rightarrow> bool" where
  "below r m = (case r of None \<Rightarrow> False | Some k \<Rightarrow> k < m)"

text \<open>\<^verbatim>\<open>retries++\<close>, reached only with a number in \<^verbatim>\<open>retries\<close> (\<^verbatim>\<open>undefined\<close> stays not a number).\<close>

definition increment :: "nat option \<Rightarrow> nat option" where
  "increment r = (case r of None \<Rightarrow> None | Some k \<Rightarrow> Some (k + 1))"

text \<open>\<^verbatim>\<open>stream.onopen = (event) => { retries = 0; _onopen(event) }\<close>\<close>

definition stream_onopen :: "stream \<Rightarrow> stream \<times> 'd effect list" where
  "stream_onopen s = (s\<lparr>retries := Some 0\<rparr>, [On_open])"

text \<open>
  \<^verbatim>\<open>stream.onerror\<close>. The branch of \<^verbatim>\<open>STATUS_COMPLETE\<close> calls \<^verbatim>\<open>_oncomplete\<close> and returns; it
  neither closes the stream nor reaches \<^verbatim>\<open>_onerror\<close>. \<^verbatim>\<open>stream.close()\<close> puts the stream in
  state \<open>CLOSED\<close>. \<^verbatim>\<open>event.status != null\<close> holds of every status but \<^verbatim>\<open>undefined\<close> and
  \<^verbatim>\<open>null\<close>.
\<close>

definition stream_onerror :: "configuration \<Rightarrow> status \<Rightarrow> stream \<Rightarrow> stream \<times> 'd effect list" where
  "stream_onerror cfg st s =
     (if st = Some STATUS_COMPLETE then (s, [On_complete])
      else if readyState s = CONNECTING then
        (if 0 < maxRetries cfg \<and> below (retries s) (maxRetries cfg)
         then ((if st \<noteq> None then s\<lparr>retries := increment (retries s)\<rparr> else s),
               [Console_log Connecting_to, On_error st])
         else (s\<lparr>readyState := CLOSED\<rparr>,
               [Console_log (Max_retries_reached (maxRetries cfg)), On_error st]))
      else (s, [On_error st]))"

text \<open>
  \<^verbatim>\<open>addStreamEventListeners\<close> registers every configured listener under its event name; an
  event of name \<open>name\<close> runs the handlers registered under that name, in registration order.
\<close>

fun listeners_from :: "nat \<Rightarrow> string list \<Rightarrow> string \<Rightarrow> 'd \<Rightarrow> 'd effect list" where
  "listeners_from i [] name d = []"
| "listeners_from i (n # ns) name d =
     (if n = name then On_event i d # listeners_from (Suc i) ns name d
      else listeners_from (Suc i) ns name d)"

definition stream_onevent :: "configuration \<Rightarrow> string \<Rightarrow> 'd \<Rightarrow> stream \<Rightarrow> stream \<times> 'd effect list" where
  "stream_onevent cfg name d s = (s, listeners_from 0 (eventListeners cfg) name d)"

text \<open>
  What the transport tells the wrapper. An error event carries \<^verbatim>\<open>event.status\<close> and arrives with
  the stream in the \<^verbatim>\<open>readyState\<close> that the transport has moved it to (\<open>CONNECTING\<close> when
  the transport is going to reconnect); an open event arrives with the stream \<open>OPEN\<close>.
\<close>

datatype 'd notification =
    TransportOpen
  | TransportError status ready_state
  | TransportMessage string 'd

text \<open>
  Modelled from the spec: the push-stream transport (the npm package behind
  \<^verbatim>\<open>EventSourcePolyfill\<close>) is not part of the repository. For the transport the status
  "no more data" is terminal: it reports the status and ends the stream without reconnecting.
  The comment in \<^verbatim>\<open>stream.onerror\<close> relies on it: the transport reconnects on errors "except
  STATUS_COMPLETE". So after the handler has returned from that notification the stream is
  closed; after any other error the transport leaves the stream as the handler left it.
\<close>

definition transport_after_error :: "status \<Rightarrow> stream \<Rightarrow> stream" where
  "transport_after_error st s = (if st = Some STATUS_COMPLETE then s\<lparr>readyState := CLOSED\<rparr> else s)"

text \<open>
  Modelled from the spec: how the transport, which is not part of the repository, delivers a
  notification. The notifications are the input of the model. The transport sets
  \<^verbatim>\<open>readyState\<close> before it calls a handler, and a stream that has been closed delivers nothing
  more (closing is the cancellation primitive). All else is the handlers above.
\<close>

definition dispatch :: "configuration \<Rightarrow> stream \<Rightarrow> 'd notification \<Rightarrow> stream \<times> 'd effect list" where
  "dispatch cfg s n =
     (if readyState s = CLOSED then (s, [])
      else case n of
        TransportOpen \<Rightarrow> stream_onopen (s\<lparr>readyState := OPEN\<rparr>)
      | TransportError st rs \<Rightarrow>
          (case stream_onerror cfg st (s\<lparr>readyState := rs\<rparr>) of
             (s', effs) \<Rightarrow> (transport_after_error st s', effs))
      | TransportMessage name d \<Rightarrow> stream_onevent cfg name d s)"

text \<open>The lifetime of a connection: the notifications in order, the effects collected.\<close>

fun run :: "configuration \<Rightarrow> stream \<Rightarrow> 'd notification list \<Rightarrow> stream \<times> 'd effect list" where
  "run cfg s [] = (s, [])"
| "run cfg s (n # ns) =
     (case dispatch cfg s n of (s', es) \<Rightarrow>
        (case run cfg s' ns of (s'', es') \<Rightarrow> (s'', es @ es')))"

text \<open>
  \<^verbatim>\<open>createServerSideEventStream\<close> returns with \<^verbatim>\<open>retries\<close> never assigned and the new
  \<^verbatim>\<open>EventSource\<close> connecting.
\<close>

definition createServerSideEventStream :: stream where
  "createServerSideEventStream = \<lparr>readyState = CONNECTING, retries = None\<rparr>"


section \<open>The handler registry\<close>

text \<open>
  A handler class is seen by the processor only through
  \<^verbatim>\<open>Object.getOwnPropertyNames(handlerClass.prototype)\<close>: the names of the members that the
  class itself declares, \<^verbatim>\<open>constructor\<close> among them.
\<close>

type_synonym handler_class = "string list"

text \<open>\<^verbatim>\<open>.filter(methodName => methodName.startsWith('on')).map(methodName => methodName.substring(2))\<close>\<close>

definition getHandledEventTypesForHandlerClass :: "handler_class \<Rightarrow> string list" where
  "getHandledEventTypesForHandlerClass handlerClass =
     map (drop 2) (filter (\<lambda>methodName. take 2 methodName = ''on'') handlerClass)"

text \<open>
  A JavaScript \<^verbatim>\<open>Set\<close> built from an array keeps the first occurrence of every element, in
  insertion order; spreading it (\<^verbatim>\<open>[...set]\<close>) yields that order.
\<close>

definition Set_add :: "'a list \<Rightarrow> 'a \<Rightarrow> 'a list" where
  "Set_add elems x = (if x \<in> set elems then elems else elems @ [x])"

definition new_Set :: "'a list \<Rightarrow> 'a list" where
  "new_Set xs = foldl Set_add [] xs"

text \<open>
  \<^verbatim>\<open>new Set(this.eventHandlerClasses.reduce((eventTypes, handlerClass) =>
  eventTypes.concat(this.getHandledEventTypesForHandlerClass(handlerClass)), []))\<close>
\<close>

definition getAllHandledEventTypes :: "handler_class list \<Rightarrow> string list" where
  "getAllHandledEventTypes eventHandlerClasses =
     new_Set (foldl (\<lambda>eventTypes handlerClass.
        eventTypes @ getHandledEventTypesForHandlerClass handlerClass) [] eventHandlerClasses)"

text \<open>\<^verbatim>\<open>Array.prototype.join\<close> on strings.\<close>

fun join :: "string \<Rightarrow> string list \<Rightarrow> string" where
  "join sep [] = []"
| "join sep [x] = x"
| "join sep (x # y # ys) = x @ sep @ join sep (y # ys)"

datatype build = Build (buildId: string)

text \<open>
  An instance made by \<^verbatim>\<open>new handlerClass.prototype.constructor(build)\<close>: its class, the build it
  was made for and the position of its class in \<^verbatim>\<open>eventHandlerClasses\<close>, which tells apart the
  instances made for one build.
\<close>

record handler =
  hclass :: handler_class
  hbuild :: build
  hindex :: nat

datatype js_error = TypeError | SyntaxError

text \<open>
  The object \<^verbatim>\<open>handlers\<close> starts as \<^verbatim>\<open>{}\<close>: its own properties are the map, and a read of a
  key that is not an own property falls through to \<^verbatim>\<open>Object.prototype\<close>, whose members are
  these.
\<close>

type_synonym handlers = "string \<rightharpoonup> handler list"

definition Object_prototype :: "string list" where
  "Object_prototype =
     [''constructor'', ''__defineGetter__'', ''__defineSetter__'', ''hasOwnProperty'',
      ''__lookupGetter__'', ''__lookupSetter__'', ''isPrototypeOf'', ''propertyIsEnumerable'',
      ''toString'', ''valueOf'', ''__proto__'', ''toLocaleString'']"

text \<open>
  \<^verbatim>\<open>const addHandler = (type, handler) => handlers[type] ? handlers[type].push(handler) :
  handlers[type] = [handler]\<close>. An inherited member is truthy and has no \<^verbatim>\<open>push\<close>: the call
  throws a \<^verbatim>\<open>TypeError\<close>.
\<close>

definition addHandler :: "handlers \<Rightarrow> string \<Rightarrow> handler \<Rightarrow> js_error + handlers" where
  "addHandler handlers type h =
     (case handlers type of
        Some hs \<Rightarrow> Inr (handlers(type \<mapsto> hs @ [h]))
      | None \<Rightarrow> if type \<in> set Object_prototype then Inl TypeError
                else Inr (handlers(type \<mapsto> [h])))"

text \<open>\<^verbatim>\<open>eventTypes.forEach(eventType => addHandler(eventType, handler))\<close>\<close>

fun addHandler_forEach :: "handlers \<Rightarrow> string list \<Rightarrow> handler \<Rightarrow> js_error + handlers" where
  "addHandler_forEach handlers [] h = Inr handlers"
| "addHandler_forEach handlers (eventType # eventTypes) h =
     (case addHandler handlers eventType h of
        Inl e \<Rightarrow> Inl e
      | Inr handlers' \<Rightarrow> addHandler_forEach handlers' eventTypes h)"

text \<open>The callback of the \<^verbatim>\<open>reduce\<close> in \<^verbatim>\<open>createBuildEventHandlers\<close>, for the class at position \<open>i\<close>.\<close>

definition addHandlerClass :: "build \<Rightarrow> handlers \<Rightarrow> nat \<Rightarrow> handler_class \<Rightarrow> js_error + handlers" where
  "addHandlerClass b handlers i handlerClass =
     (let h = \<lparr>hclass = handlerClass, hbuild = b, hindex = i\<rparr> in
      case addHandler_forEach handlers (getHandledEventTypesForHandlerClass handlerClass) h of
        Inl e \<Rightarrow> Inl e
      | Inr handlers' \<Rightarrow>
          if ''complete'' \<in> set handlerClass then addHandler handlers' ''complete'' h
          else Inr handlers')"

fun reduce_handlerClasses ::
  "build \<Rightarrow> handlers \<Rightarrow> nat \<Rightarrow> handler_class list \<Rightarrow> js_error + handlers" where
  "reduce_handlerClasses b handlers i [] = Inr handlers"
| "reduce_handlerClasses b handlers i (handlerClass # rest) =
     (case addHandlerClass b handlers i handlerClass of
        Inl e \<Rightarrow> Inl e
      | Inr handlers' \<Rightarrow> reduce_handlerClasses b handlers' (Suc i) rest)"

definition createBuildEventHandlers :: "handler_class list \<Rightarrow> build \<Rightarrow> js_error + handlers" where
  "createBuildEventHandlers eventHandlerClasses b =
     reduce_handlerClasses b Map.empty 0 eventHandlerClasses"

section \<open>The build processor\<close>

text \<open>
  The outcome of \<^verbatim>\<open>JSON.parse(event.data)\<close> on a build event, as far as the listener looks at
  it: \<open>ptype = None\<close> when the payload has no \<^verbatim>\<open>type\<close> member, \<open>Some None\<close> when
  \<^verbatim>\<open>type\<close> has no \<^verbatim>\<open>eventType\<close>, \<open>Some (Some t)\<close> for the event type \<open>t\<close>. The event
  data itself is a \<open>payload option\<close>, \<open>None\<close> for text that is not JSON.
\<close>

datatype payload = Payload (ptype: "string option option") (pbody: string)

text \<open>A method call on a handler instance: the instance, the method name, the argument.\<close>

datatype invocation = Invocation handler string "payload option"

text \<open>
  \<^verbatim>\<open>hs.forEach(handler => handler[name](argument))\<close>: the calls made, and the
  \<^verbatim>\<open>TypeError\<close> that ends the loop at the first instance whose class does not declare the method.
  The members that a class declares are taken to be methods, and classes to have no superclass
  that declares more; what a method of a handler does is outside the processor.
\<close>

fun invoke_forEach ::
  "handler list \<Rightarrow> string \<Rightarrow> payload option \<Rightarrow> invocation list \<times> js_error option" where
  "invoke_forEach [] name a = ([], None)"
| "invoke_forEach (h # hs) name a =
     (if name \<in> set (hclass h)
      then (case invoke_forEach hs name a of (calls, err) \<Rightarrow> (Invocation h name a # calls, err))
      else ([], Some TypeError))"

text \<open>
  The listener of \<^verbatim>\<open>BuildEvent\<close> in \<^verbatim>\<open>processBuild\<close>. A read of a key that
  \<^verbatim>\<open>buildEventHandlers\<close> does not own gives nothing that has \<^verbatim>\<open>forEach\<close>.
\<close>

definition buildEvent_listener ::
  "string list \<Rightarrow> handlers \<Rightarrow> payload option \<Rightarrow> invocation list \<times> js_error option" where
  "buildEvent_listener allHandledEventTypes buildEventHandlers data =
     (case data of
        None \<Rightarrow> ([], Some SyntaxError)
      | Some buildEventPayload \<Rightarrow>
          (case ptype buildEventPayload of
             None \<Rightarrow> ([], Some TypeError)
           | Some None \<Rightarrow> ([], None)
           | Some (Some eventType) \<Rightarrow>
               if eventType \<in> set allHandledEventTypes
               then (case buildEventHandlers eventType of
                       None \<Rightarrow> ([], Some TypeError)
                     | Some hs \<Rightarrow> invoke_forEach hs (''on'' @ eventType) (Some buildEventPayload))
               else ([], None)))"

text \<open>
  The second half of the \<^verbatim>\<open>oncomplete\<close> callback:
  \<^verbatim>\<open>if (buildEventHandlers.complete) buildEventHandlers.complete.forEach(handler => handler.complete())\<close>
\<close>

definition complete_forEach :: "handlers \<Rightarrow> invocation list \<times> js_error option" where
  "complete_forEach buildEventHandlers =
     (case buildEventHandlers ''complete'' of
        None \<Rightarrow> ([], None)
      | Some hs \<Rightarrow> invoke_forEach hs ''complete'' None)"

text \<open>
  One admitted build: the arguments \<^verbatim>\<open>processBuild\<close> computed for it, the state of its stream
  and the calls made so far on its handler instances.
\<close>

record process =
  pbuild :: build
  purl :: string
  phandlers :: handlers
  pstream :: stream
  pinvoked :: "invocation list"

text \<open>
  The fields of \<^verbatim>\<open>BuildProcessor\<close>, and with them what surrounds it: the number of callbacks
  posted with \<^verbatim>\<open>setTimeout\<close> that have not run yet, the admitted builds in the order of their
  \<^verbatim>\<open>processBuild\<close> calls, and the exception, if any, that no one caught (it ends the program).
\<close>

record build_processor =
  gradleEnterpriseServerUrl :: string
  eventHandlerClasses :: "handler_class list"
  allHandledEventTypes :: "string list"
  pendingBuilds :: "build list"
  numBuildsInProcess :: int
  maxConcurrentBuildsToProcess :: int
  timeouts :: nat
  processes :: "process list"
  uncaught :: "js_error option"

text \<open>The constructor.\<close>

definition new_BuildProcessor :: "string \<Rightarrow> int \<Rightarrow> handler_class list \<Rightarrow> build_processor" where
  "new_BuildProcessor url maxConcurrent classes =
     \<lparr>gradleEnterpriseServerUrl = url,
      eventHandlerClasses = classes,
      allHandledEventTypes = getAllHandledEventTypes classes,
      pendingBuilds = [],
      numBuildsInProcess = 0,
      maxConcurrentBuildsToProcess = maxConcurrent,
      timeouts = 0,
      processes = [],
      uncaught = None\<rparr>"

definition createBuildEventStreamUrl :: "build_processor \<Rightarrow> string \<Rightarrow> string" where
  "createBuildEventStreamUrl this bid =
     gradleEnterpriseServerUrl this @ ''/build-export/v1/build/'' @ bid @ ''/events?eventTypes=''
       @ join '','' (allHandledEventTypes this)"

text \<open>The retry policy and the listener that \<^verbatim>\<open>processBuild\<close> passes for the stream of a build.\<close>

definition build_stream_configuration :: configuration where
  "build_stream_configuration = \<lparr>retry_maxRetries = Some 100, eventListeners = [''BuildEvent'']\<rparr>"

text \<open>
  \<^verbatim>\<open>processBuild\<close>: the counter is incremented first; an exception of
  \<^verbatim>\<open>createBuildEventHandlers\<close> leaves it incremented and no stream is created.
\<close>

definition processBuild :: "build_processor \<Rightarrow> build \<Rightarrow> build_processor" where
  "processBuild this b =
     (let this1 = this\<lparr>numBuildsInProcess := numBuildsInProcess this + 1\<rparr> in
      case createBuildEventHandlers (eventHandlerClasses this1) b of
        Inl e \<Rightarrow> this1\<lparr>uncaught := Some e\<rparr>
      | Inr buildEventHandlers \<Rightarrow>
          this1\<lparr>processes := processes this1 @
            [\<lparr>pbuild = b,
              purl = createBuildEventStreamUrl this1 (buildId b),
              phandlers = buildEventHandlers,
              pstream = createServerSideEventStream,
              pinvoked = []\<rparr>]\<rparr>)"

text \<open>
  \<^verbatim>\<open>if (this.pendingBuilds.length > 0 && this.numBuildsInProcess < this.maxConcurrentBuildsToProcess)
  this.processBuild(this.pendingBuilds.shift())\<close>
\<close>

definition processPendingBuilds :: "build_processor \<Rightarrow> build_processor" where
  "processPendingBuilds this =
     (case pendingBuilds this of
        [] \<Rightarrow> this
      | b # rest \<Rightarrow>
          if numBuildsInProcess this < maxConcurrentBuildsToProcess this
          then processBuild (this\<lparr>pendingBuilds := rest\<rparr>) b
          else this)"

definition enqueue :: "build_processor \<Rightarrow> build \<Rightarrow> build_processor" where
  "enqueue this b = processPendingBuilds (this\<lparr>pendingBuilds := pendingBuilds this @ [b]\<rparr>)"

text \<open>
  \<^verbatim>\<open>this.numBuildsInProcess--; setTimeout(() => this.processPendingBuilds(), 0)\<close>: the admission
  attempt is posted, not run.
\<close>

definition finishedProcessingBuild :: "build_processor \<Rightarrow> build_processor" where
  "finishedProcessingBuild this =
     this\<lparr>numBuildsInProcess := numBuildsInProcess this - 1, timeouts := timeouts this + 1\<rparr>"

text \<open>The calls \<open>calls\<close> happened on the instances of process \<open>i\<close>, and then \<open>err\<close>.\<close>

definition record_calls ::
  "nat \<Rightarrow> invocation list \<times> js_error option \<Rightarrow> build_processor \<Rightarrow> build_processor" where
  "record_calls i outcome this =
     (let p = processes this ! i in
      this\<lparr>processes := (processes this)[i := p\<lparr>pinvoked := pinvoked p @ fst outcome\<rparr>],
           uncaught := snd outcome\<rparr>)"

text \<open>The \<^verbatim>\<open>oncomplete\<close> callback that \<^verbatim>\<open>processBuild\<close> passes for process \<open>i\<close>.\<close>

definition oncomplete :: "nat \<Rightarrow> build_processor \<Rightarrow> build_processor" where
  "oncomplete i this =
     (let this1 = finishedProcessingBuild this in
      record_calls i (complete_forEach (phandlers (processes this1 ! i))) this1)"

text \<open>The \<^verbatim>\<open>BuildEvent\<close> listener that \<^verbatim>\<open>processBuild\<close> passes for process \<open>i\<close>.\<close>

definition onBuildEvent :: "nat \<Rightarrow> payload option \<Rightarrow> build_processor \<Rightarrow> build_processor" where
  "onBuildEvent i data this =
     record_calls i
       (buildEvent_listener (allHandledEventTypes this) (phandlers (processes this ! i)) data) this"

text \<open>
  What an effect of the stream of process \<open>i\<close> does to the processor. \<^verbatim>\<open>processBuild\<close> passes
  neither \<^verbatim>\<open>onopen\<close> nor \<^verbatim>\<open>onerror\<close>: both are \<^verbatim>\<open>noop\<close>. After an uncaught exception
  nothing runs.
\<close>

definition callback :: "nat \<Rightarrow> build_processor \<Rightarrow> payload option effect \<Rightarrow> build_processor" where
  "callback i this eff =
     (if uncaught this \<noteq> None then this
      else case eff of
        On_complete \<Rightarrow> oncomplete i this
      | On_event k data \<Rightarrow> onBuildEvent i data this
      | On_open \<Rightarrow> this
      | On_error st \<Rightarrow> this
      | Console_log l \<Rightarrow> this)"

text \<open>
  What happens to a running processor: the listener of the top-level stream receives a build,
  a posted timeout callback runs, or the transport notifies the stream of the \<open>i\<close>-th admitted
  build.
\<close>

datatype occurrence =
    Build_received build
  | Timeout_fired
  | Stream_notified nat "payload option notification"

definition notify :: "nat \<Rightarrow> payload option notification \<Rightarrow> build_processor \<Rightarrow> build_processor" where
  "notify i n this =
     (let p = processes this ! i in
      case dispatch build_stream_configuration (pstream p) n of
        (s', effs) \<Rightarrow>
          foldl (callback i) (this\<lparr>processes := (processes this)[i := p\<lparr>pstream := s'\<rparr>]\<rparr>) effs)"

definition step :: "build_processor \<Rightarrow> occurrence \<Rightarrow> build_processor" where
  "step this occ =
     (if uncaught this \<noteq> None then this
      else case occ of
        Build_received b \<Rightarrow> enqueue this b
      | Timeout_fired \<Rightarrow>
          if timeouts this = 0 then this
          else processPendingBuilds (this\<lparr>timeouts := timeouts this - 1\<rparr>)
      | Stream_notified i n \<Rightarrow>
          if i < length (processes this) then notify i n this else this)"

definition execute :: "build_processor \<Rightarrow> occurrence list \<Rightarrow> build_processor" where
  "execute this occs = foldl step this occs"


section \<open>The sample configuration\<close>

text \<open>The own property names of the prototypes of the two sample handler classes.\<close>

definition BuildDurationEventsHandler :: handler_class where
  "BuildDurationEventsHandler = [''constructor'', ''onBuildStarted'', ''onBuildFinished'']"

definition CacheableTaskCountHandler :: handler_class where
  "CacheableTaskCountHandler = [''constructor'', ''onTaskFinished'', ''complete'']"

definition BUILD_EVENT_HANDLERS :: "handler_class list" where
  "BUILD_EVENT_HANDLERS = [BuildDurationEventsHandler, CacheableTaskCountHandler]"

definition GRADLE_ENTERPRISE_SERVER_URL :: string where
  "GRADLE_ENTERPRISE_SERVER_URL = ''https://localhost:5050''"

text \<open>A configuration with a retry ceiling of two and no listeners, for small examples.\<close>

definition two_retries :: configuration where
  "two_retries = \<lparr>retry_maxRetries = Some 2, eventListeners = []\<rparr>"

text \<open>
  Example inputs: a build, the occurrences up to the opening of its stream, a notification
  of "no more data" after that, an event of type \<^verbatim>\<open>complete\<close>, and a stream
  that opens and then fails 101 times while a second build waits. Three further handler
  classes declare \<^verbatim>\<open>oncomplete\<close>, \<^verbatim>\<open>complete\<close> or both.
\<close>

definition build_abc :: build where "build_abc = Build ''abc''"



definition OnCompleteOnly :: handler_class where
  "OnCompleteOnly = [''constructor'', ''oncomplete'']"



definition terminal_failure :: "occurrence list" where
  "terminal_failure =
     [Build_received (Build ''b1''), Build_received (Build ''b2''),
      Stream_notified 0 TransportOpen]
     @ replicate 101 (Stream_notified 0 (TransportError (Some 500) CONNECTING))
     @ [Timeout_fired]"

definition stream_opened :: "occurrence list" where
  "stream_opened = [Build_received build_abc, Stream_notified 0 TransportOpen]"



section \<open>Notions used to state the properties\<close>

text \<open>
  An error notification that carries a status other than \<^verbatim>\<open>STATUS_COMPLETE\<close> and arrives while
  the transport is reconnecting.
\<close>

fun transient_error_with_status :: "'d notification \<Rightarrow> bool" where
  "transient_error_with_status (TransportError (Some st) CONNECTING) = (st \<noteq> STATUS_COMPLETE)"
| "transient_error_with_status _ = False"

text \<open>The notification of the status "no more data".\<close>

definition is_complete_signal :: "'d notification \<Rightarrow> bool" where
  "is_complete_signal n =
     (case n of TransportError st rs \<Rightarrow> st = Some STATUS_COMPLETE | _ \<Rightarrow> False)"

text \<open>The notifications of a sequence that reach the handlers: those before the stream is closed.\<close>

fun delivered :: "configuration \<Rightarrow> stream \<Rightarrow> 'd notification list \<Rightarrow> 'd notification list" where
  "delivered cfg s [] = []"
| "delivered cfg s (n # ns) =
     (if readyState s = CLOSED then [] else n # delivered cfg (fst (dispatch cfg s n)) ns)"

text \<open>The builds that the top-level listener received, in order.\<close>

fun received :: "occurrence list \<Rightarrow> build list" where
  "received [] = []"
| "received (Build_received b # occs) = b # received occs"
| "received (Timeout_fired # occs) = received occs"
| "received (Stream_notified i n # occs) = received occs"






text \<open>
  A process is consistent with the settings when its handler map is what
  \<^verbatim>\<open>createBuildEventHandlers\<close> returns for its build and its address is what
  \<^verbatim>\<open>createBuildEventStreamUrl\<close> returns; a processor is consistent when its settings are
  those it was constructed with and all its processes are consistent.
\<close>

definition process_consistent :: "string \<Rightarrow> handler_class list \<Rightarrow> process \<Rightarrow> bool" where
  "process_consistent url classes p \<longleftrightarrow>
     createBuildEventHandlers classes (pbuild p) = Inr (phandlers p)
     \<and> purl p = url @ ''/build-export/v1/build/'' @ buildId (pbuild p) @ ''/events?eventTypes=''
         @ join '','' (getAllHandledEventTypes classes)"

definition consistent :: "string \<Rightarrow> handler_class list \<Rightarrow> build_processor \<Rightarrow> bool" where
  "consistent url classes this \<longleftrightarrow>
     gradleEnterpriseServerUrl this = url
     \<and> eventHandlerClasses this = classes
     \<and> allHandledEventTypes this = getAllHandledEventTypes classes
     \<and> list_all (process_consistent url classes) (processes this)"


text \<open>
  What can be seen of a processor without looking into the handler maps: the count, the queue,
  the posted timeouts, the state of every stream, the calls made, the uncaught exception.
\<close>

definition snapshot ::
  "build_processor \<Rightarrow> int \<times> build list \<times> nat \<times> ready_state list \<times> invocation list list \<times> js_error option" where
  "snapshot this =
     (numBuildsInProcess this, pendingBuilds this, timeouts this,
      map (\<lambda>p. readyState (pstream p)) (processes this), map pinvoked (processes this),
      uncaught this)"

section \<open>Properties of the stream connection\<close>

lemma dispatch_closed: "readyState s = CLOSED \<Longrightarrow> dispatch cfg s n = (s, [])"
  by (simp add: dispatch_def)

lemma run_closed: "readyState s = CLOSED \<Longrightarrow> run cfg s ns = (s, [])"
  by (induction ns) (simp_all add: dispatch_closed)

lemma run_append:
  "run cfg s (xs @ ys) =
     (case run cfg s xs of (s', es) \<Rightarrow> (case run cfg s' ys of (s'', es') \<Rightarrow> (s'', es @ es')))"
  by (induction xs arbitrary: s) (auto split: prod.splits)

lemma fst_run_Cons: "fst (run cfg s (n # ns)) = fst (run cfg (fst (dispatch cfg s n)) ns)"
  by (simp split: prod.splits)

lemma snd_run_Cons:
  "snd (run cfg s (n # ns)) = snd (dispatch cfg s n) @ snd (run cfg (fst (dispatch cfg s n)) ns)"
  by (simp split: prod.splits)

lemma fst_run_snoc: "fst (run cfg s (ns @ [n])) = fst (dispatch cfg (fst (run cfg s ns)) n)"
  by (simp add: run_append split: prod.splits)

lemma dispatch_retries_undefined:
  "retries s = None \<Longrightarrow> n \<noteq> TransportOpen \<Longrightarrow> retries (fst (dispatch cfg s n)) = None"
  by (cases n)
     (simp_all add: dispatch_def stream_onerror_def transport_after_error_def stream_onevent_def below_def)

lemma run_retries_undefined:
  "retries s = None \<Longrightarrow> TransportOpen \<notin> set ns \<Longrightarrow> retries (fst (run cfg s ns)) = None"
proof (induction ns arbitrary: s)
  case Nil
  then show ?case by simp
next
  case (Cons n ns)
  from Cons.prems have "retries (fst (dispatch cfg s n)) = None"
    by (intro dispatch_retries_undefined) auto
  moreover from Cons.prems have "TransportOpen \<notin> set ns"
    by simp
  ultimately have "retries (fst (run cfg (fst (dispatch cfg s n)) ns)) = None"
    by (rule Cons.IH)
  then show ?case
    by (simp only: fst_run_Cons)
qed

lemma dispatch_error_undefined:
  "readyState s \<noteq> CLOSED \<Longrightarrow> retries s = None \<Longrightarrow> st \<noteq> Some STATUS_COMPLETE \<Longrightarrow>
   dispatch cfg s (TransportError st CONNECTING) =
     (s\<lparr>readyState := CLOSED\<rparr>,
      [Console_log (Max_retries_reached (maxRetries cfg)), On_error st])"
  by (simp add: dispatch_def stream_onerror_def transport_after_error_def below_def)

lemma transient_error_with_status_cases:
  "transient_error_with_status e \<Longrightarrow>
   \<exists>st. e = TransportError (Some st) CONNECTING \<and> st \<noteq> STATUS_COMPLETE"
  by (cases e rule: transient_error_with_status.cases) simp_all

lemma dispatch_transient_error:
  assumes "readyState s \<noteq> CLOSED" and "retries s = Some k" and "k < maxRetries cfg"
    and "transient_error_with_status e"
  shows "fst (dispatch cfg s e) = \<lparr>readyState = CONNECTING, retries = Some (Suc k)\<rparr>"
proof -
  from assms(4) obtain st where "e = TransportError (Some st) CONNECTING" "st \<noteq> STATUS_COMPLETE"
    using transient_error_with_status_cases by blast
  with assms(1-3) show ?thesis
    by (simp add: dispatch_def stream_onerror_def transport_after_error_def below_def increment_def)
qed

lemma run_transient_errors:
  assumes "readyState s \<noteq> CLOSED" and "retries s = Some k"
    and "k + length es \<le> maxRetries cfg"
    and "\<forall>e\<in>set es. transient_error_with_status e"
  shows "retries (fst (run cfg s es)) = Some (k + length es)
       \<and> readyState (fst (run cfg s es)) \<noteq> CLOSED"
  using assms
proof (induction es arbitrary: s k)
  case Nil
  then show ?case by simp
next
  case (Cons e es)
  let ?s' = "fst (dispatch cfg s e)"
  from Cons.prems have s': "?s' = \<lparr>readyState = CONNECTING, retries = Some (Suc k)\<rparr>"
    by (intro dispatch_transient_error) auto
  have "retries (fst (run cfg ?s' es)) = Some (Suc k + length es)
       \<and> readyState (fst (run cfg ?s' es)) \<noteq> CLOSED"
  proof (rule Cons.IH)
    show "readyState ?s' \<noteq> CLOSED" by (simp add: s')
    show "retries ?s' = Some (Suc k)" by (simp add: s')
    show "Suc k + length es \<le> maxRetries cfg" using Cons.prems(3) by simp
    show "\<forall>e\<in>set es. transient_error_with_status e" using Cons.prems(4) by simp
  qed
  then show ?case
    by (simp only: fst_run_Cons) simp
qed


lemma count_dispatch:
  "count_list (snd (dispatch cfg s n)) On_complete =
     (if readyState s \<noteq> CLOSED \<and> is_complete_signal n then 1 else 0)"
proof (cases n)
  case TransportOpen
  then show ?thesis
    by (simp add: dispatch_def stream_onopen_def is_complete_signal_def)
next
  case (TransportError st rs)
  then show ?thesis
    by (simp add: dispatch_def stream_onerror_def transport_after_error_def is_complete_signal_def)
next
  case (TransportMessage name d)
  have "count_list (listeners_from i ls name d) On_complete = 0" for i ls
    by (induction ls arbitrary: i) simp_all
  with TransportMessage show ?thesis
    by (simp add: dispatch_def stream_onevent_def is_complete_signal_def)
qed

lemma count_run:
  "count_list (snd (run cfg s ns)) On_complete =
     length (filter is_complete_signal (delivered cfg s ns))"
proof (induction ns arbitrary: s)
  case Nil
  then show ?case by simp
next
  case (Cons n ns)
  show ?case
  proof (cases "readyState s = CLOSED")
    case True
    then show ?thesis by (simp add: run_closed del: run.simps)
  next
    case False
    then show ?thesis
      by (simp only: snd_run_Cons count_list_append count_dispatch Cons.IH) simp
  qed
qed

text \<open>
  Claim C10. The retry counter is undefined from the creation of the connection until the first
  open event. Hence an error that arrives before any open event, with the stream connecting
  and with or without a status (the status "no more data" apart, which is the completion
  signal), fails the test \<^verbatim>\<open>retries < _maxRetries\<close> whatever \<^verbatim>\<open>maxRetries\<close> is: the handler
  closes the stream, reports the error, and the closed stream delivers nothing ever after.
\<close>

theorem first_error_before_open_closes:
  assumes "TransportOpen \<notin> set ns"
    and "s = fst (run cfg createServerSideEventStream ns)"
    and "readyState s \<noteq> CLOSED"
    and "st \<noteq> Some STATUS_COMPLETE"
  shows "retries createServerSideEventStream = None
    \<and> retries s = None
    \<and> dispatch cfg s (TransportError st CONNECTING) =
        (s\<lparr>readyState := CLOSED\<rparr>,
         [Console_log (Max_retries_reached (maxRetries cfg)), On_error st])
    \<and> (\<forall>ns'. run cfg (s\<lparr>readyState := CLOSED\<rparr>) ns' = (s\<lparr>readyState := CLOSED\<rparr>, []))"
proof -
  have u: "retries (createServerSideEventStream) = None"
    by (simp add: createServerSideEventStream_def)
  then have r: "retries s = None"
    using assms(1,2) by (simp add: run_retries_undefined)
  show ?thesis
    using u r assms(3,4) by (simp add: dispatch_error_undefined run_closed)
qed

theorem first_error_before_open_closes_witness:
  "dispatch build_stream_configuration
     (fst (run build_stream_configuration createServerSideEventStream
        [TransportError None OPEN, TransportMessage ''BuildEvent'' (None :: payload option)]))
     (TransportError (Some 503) CONNECTING) =
   (\<lparr>readyState = CLOSED, retries = None\<rparr>,
    [Console_log (Max_retries_reached 100), On_error (Some 503)])"
  using first_error_before_open_closes
    [of "[TransportError None OPEN, TransportMessage ''BuildEvent'' (None :: payload option)]"
        "fst (run build_stream_configuration createServerSideEventStream
          [TransportError None OPEN, TransportMessage ''BuildEvent'' (None :: payload option)])"
        build_stream_configuration "Some 503"]
  by (simp add: STATUS_COMPLETE_def createServerSideEventStream_def dispatch_def
      stream_onerror_def transport_after_error_def stream_onevent_def build_stream_configuration_def maxRetries_def
      below_def)


lemma dispatch_changes_retries:
  assumes "retries (fst (dispatch cfg s n)) \<noteq> retries s"
  shows "n = TransportOpen \<or>
         (transient_error_with_status n \<and>
          (\<exists>k. retries s = Some k \<and> k < maxRetries cfg \<and>
               retries (fst (dispatch cfg s n)) = Some (k + 1)))"
proof (cases n)
  case TransportOpen
  then show ?thesis by simp
next
  case (TransportError st rs)
  with assms show ?thesis
    by (cases st; cases rs)
       (auto simp: dispatch_def stream_onerror_def transport_after_error_def below_def increment_def
             split: if_splits option.splits)
next
  case (TransportMessage name d)
  with assms show ?thesis
    by (simp add: dispatch_def stream_onevent_def split: if_splits)
qed

text \<open>
  Claim C6. Every open event that is delivered sets the retry counter to zero. An error
  notification without status never changes the counter. The only notifications that change
  it at all are the open event and an error that carries a status (other than "no more data")
  while the stream is connecting and the counter is below the ceiling, which adds one. So
  after \<^verbatim>\<open>maxRetries - 1\<close> such errors the counter is \<^verbatim>\<open>maxRetries - 1\<close>, and an open event
  then leaves it at zero.
\<close>

theorem retries_reset_by_open_counted_by_status:
  "(readyState s \<noteq> CLOSED \<longrightarrow> retries (fst (dispatch cfg s TransportOpen)) = Some 0)
   \<and> retries (fst (dispatch cfg s (TransportError None rs))) = retries s
   \<and> (retries (fst (dispatch cfg s n)) \<noteq> retries s \<longrightarrow>
        n = TransportOpen \<or>
        (transient_error_with_status n \<and>
         (\<exists>k. retries s = Some k \<and> k < maxRetries cfg \<and>
              retries (fst (dispatch cfg s n)) = Some (k + 1))))
   \<and> (readyState s \<noteq> CLOSED \<and> retries s = Some 0 \<and> length es + 1 = maxRetries cfg
        \<and> (\<forall>e\<in>set es. transient_error_with_status e) \<longrightarrow>
        retries (fst (run cfg s es)) = Some (length es)
        \<and> retries (fst (run cfg s (es @ [TransportOpen]))) = Some 0)"
proof (intro conjI impI)
  show "retries (fst (dispatch cfg s TransportOpen)) = Some 0" if "readyState s \<noteq> CLOSED"
    using that by (simp add: dispatch_def stream_onopen_def)
  show "retries (fst (dispatch cfg s (TransportError None rs))) = retries s"
    by (simp add: dispatch_def stream_onerror_def transport_after_error_def)
  show "n = TransportOpen \<or>
        (transient_error_with_status n \<and>
         (\<exists>k. retries s = Some k \<and> k < maxRetries cfg \<and>
              retries (fst (dispatch cfg s n)) = Some (k + 1)))"
    if "retries (fst (dispatch cfg s n)) \<noteq> retries s"
    using that by (rule dispatch_changes_retries)
next
  assume a: "readyState s \<noteq> CLOSED \<and> retries s = Some 0 \<and> length es + 1 = maxRetries cfg
        \<and> (\<forall>e\<in>set es. transient_error_with_status e)"
  then have "0 + length es \<le> maxRetries cfg"
    by simp
  with a have r: "retries (fst (run cfg s es)) = Some (0 + length es)
       \<and> readyState (fst (run cfg s es)) \<noteq> CLOSED"
    by (intro run_transient_errors) auto
  then show "retries (fst (run cfg s es)) = Some (length es)"
    by simp
  from r show "retries (fst (run cfg s (es @ [TransportOpen]))) = Some 0"
    by (simp add: fst_run_snoc dispatch_def stream_onopen_def)
qed

theorem retries_reset_by_open_counted_by_status_witness:
  "retries (fst (run two_retries \<lparr>readyState = OPEN, retries = Some 0\<rparr>
      [TransportError (Some 500) CONNECTING :: unit notification])) = Some 1
   \<and> retries (fst (run two_retries \<lparr>readyState = OPEN, retries = Some 0\<rparr>
      [TransportError (Some 500) CONNECTING, TransportOpen :: unit notification])) = Some 0
   \<and> retries (fst (dispatch two_retries \<lparr>readyState = CONNECTING, retries = Some 1\<rparr>
      (TransportOpen :: unit notification))) = Some 0
   \<and> retries (fst (dispatch two_retries \<lparr>readyState = CONNECTING, retries = Some 1\<rparr>
      (TransportError (Some 500) CONNECTING :: unit notification))) = Some 2"
  using retries_reset_by_open_counted_by_status
    [of "\<lparr>readyState = OPEN, retries = Some 0\<rparr>" two_retries CONNECTING
        "TransportError (Some 500) CONNECTING :: unit notification"
        "[TransportError (Some 500) CONNECTING :: unit notification]"]
    retries_reset_by_open_counted_by_status
    [of "\<lparr>readyState = CONNECTING, retries = Some 1\<rparr>" two_retries CONNECTING
        "TransportError (Some 500) CONNECTING :: unit notification"
        "[]"]
  by (simp add: two_retries_def dispatch_def stream_onerror_def transport_after_error_def stream_onopen_def
      STATUS_COMPLETE_def maxRetries_def below_def increment_def)




lemma dispatch_complete_signal:
  assumes "readyState s \<noteq> CLOSED" and "is_complete_signal n"
  shows "dispatch cfg s n = (s\<lparr>readyState := CLOSED\<rparr>, [On_complete])"
proof (cases n)
  case TransportOpen
  with assms(2) show ?thesis by (simp add: is_complete_signal_def)
next
  case (TransportError st rs)
  with assms show ?thesis
    by (simp add: is_complete_signal_def dispatch_def stream_onerror_def transport_after_error_def)
next
  case (TransportMessage name d)
  with assms(2) show ?thesis by (simp add: is_complete_signal_def)
qed

lemma delivered_closed: "readyState s = CLOSED \<Longrightarrow> delivered cfg s ns = []"
  by (cases ns) simp_all

lemma delivered_signals:
  "length (filter is_complete_signal (delivered cfg s ns)) =
     (if \<exists>n\<in>set (delivered cfg s ns). is_complete_signal n then 1 else 0)"
proof (induction ns arbitrary: s)
  case Nil
  then show ?case by simp
next
  case (Cons n ns)
  show ?case
  proof (cases "readyState s = CLOSED")
    case True
    then show ?thesis by simp
  next
    case opn: False
    show ?thesis
    proof (cases "is_complete_signal n")
      case True
      with opn have "readyState (fst (dispatch cfg s n)) = CLOSED"
        by (simp add: dispatch_complete_signal)
      then have "delivered cfg (fst (dispatch cfg s n)) ns = []"
        by (rule delivered_closed)
      with opn True show ?thesis by simp
    next
      case False
      with opn Cons.IH [of "fst (dispatch cfg s n)"] show ?thesis by simp
    qed
  qed
qed

text \<open>
  Claim C3. A notification of the status "no more data" that reaches the handler invokes
  \<^verbatim>\<open>oncomplete\<close> once, and neither \<^verbatim>\<open>onerror\<close> nor the retry logic; with it the stream has ended,
  and whatever is sent to it afterwards reaches no handler: no callback runs, nothing is
  counted as a retry, nothing changes. Nothing else invokes \<^verbatim>\<open>oncomplete\<close>. So over the whole
  lifetime of a connection \<^verbatim>\<open>oncomplete\<close> runs exactly once if the signal is delivered, and
  never otherwise.
\<close>

theorem complete_exactly_once:
  "(readyState s \<noteq> CLOSED \<longrightarrow>
      dispatch cfg s (TransportError (Some STATUS_COMPLETE) rs) =
        (s\<lparr>readyState := CLOSED\<rparr>, [On_complete])
      \<and> (\<forall>ns'. run cfg (s\<lparr>readyState := CLOSED\<rparr>) ns' = (s\<lparr>readyState := CLOSED\<rparr>, [])))
   \<and> count_list (snd (run cfg s ns)) On_complete =
       (if \<exists>n\<in>set (delivered cfg s ns). is_complete_signal n then 1 else 0)"
proof (intro conjI impI)
  assume "readyState s \<noteq> CLOSED"
  then show "dispatch cfg s (TransportError (Some STATUS_COMPLETE) rs) =
        (s\<lparr>readyState := CLOSED\<rparr>, [On_complete])"
    by (simp add: dispatch_complete_signal is_complete_signal_def)
  show "\<forall>ns'. run cfg (s\<lparr>readyState := CLOSED\<rparr>) ns' = (s\<lparr>readyState := CLOSED\<rparr>, [])"
    by (simp add: run_closed)
next
  show "count_list (snd (run cfg s ns)) On_complete =
       (if \<exists>n\<in>set (delivered cfg s ns). is_complete_signal n then 1 else 0)"
    by (simp only: count_run delivered_signals)
qed

theorem complete_exactly_once_witness:
  "run build_stream_configuration createServerSideEventStream
     [TransportOpen, TransportError None CONNECTING, TransportError (Some 204) CONNECTING,
      TransportError (Some 500) CONNECTING, TransportOpen :: unit notification] =
   (\<lparr>readyState = CLOSED, retries = Some 0\<rparr>,
    [On_open, Console_log Connecting_to, On_error None, On_complete])"
  using complete_exactly_once
    [of "\<lparr>readyState = CONNECTING, retries = Some 0\<rparr>" build_stream_configuration CONNECTING
        "[TransportError (Some 204) CONNECTING :: unit notification]"]
  by (simp add: build_stream_configuration_def createServerSideEventStream_def dispatch_def
      stream_onopen_def stream_onerror_def transport_after_error_def STATUS_COMPLETE_def
      maxRetries_def below_def increment_def is_complete_signal_def)

section \<open>Properties of the scheduler\<close>

lemma processBuild_scheduler:
  "numBuildsInProcess (processBuild this b) = numBuildsInProcess this + 1"
  "maxConcurrentBuildsToProcess (processBuild this b) = maxConcurrentBuildsToProcess this"
  "pendingBuilds (processBuild this b) = pendingBuilds this"
  "timeouts (processBuild this b) = timeouts this"
  by (simp_all add: processBuild_def Let_def split: sum.splits)

lemma processPendingBuilds_max:
  "maxConcurrentBuildsToProcess (processPendingBuilds this) = maxConcurrentBuildsToProcess this"
  by (simp add: processPendingBuilds_def processBuild_scheduler split: list.splits)

lemma processPendingBuilds_bounded:
  "numBuildsInProcess this \<le> maxConcurrentBuildsToProcess this \<Longrightarrow>
   numBuildsInProcess (processPendingBuilds this) \<le> maxConcurrentBuildsToProcess this"
  by (simp add: processPendingBuilds_def processBuild_scheduler split: list.splits)

lemma record_calls_scheduler:
  "numBuildsInProcess (record_calls i outcome this) = numBuildsInProcess this"
  "maxConcurrentBuildsToProcess (record_calls i outcome this) = maxConcurrentBuildsToProcess this"
  "pendingBuilds (record_calls i outcome this) = pendingBuilds this"
  "timeouts (record_calls i outcome this) = timeouts this"
  by (simp_all add: record_calls_def Let_def)

lemma callback_max:
  "maxConcurrentBuildsToProcess (callback i this eff) = maxConcurrentBuildsToProcess this"
  by (cases eff)
     (simp_all add: callback_def oncomplete_def onBuildEvent_def finishedProcessingBuild_def
        record_calls_scheduler Let_def)

lemma callback_count:
  "numBuildsInProcess (callback i this eff) \<le> numBuildsInProcess this"
  by (cases eff)
     (simp_all add: callback_def oncomplete_def onBuildEvent_def finishedProcessingBuild_def
        record_calls_scheduler Let_def)

lemma foldl_callback_bounded:
  "numBuildsInProcess this \<le> maxConcurrentBuildsToProcess this \<Longrightarrow>
   numBuildsInProcess (foldl (callback i) this effs)
     \<le> maxConcurrentBuildsToProcess (foldl (callback i) this effs)
   \<and> maxConcurrentBuildsToProcess (foldl (callback i) this effs)
     = maxConcurrentBuildsToProcess this"
proof (induction effs arbitrary: this)
  case Nil
  then show ?case by simp
next
  case (Cons eff effs)
  have "numBuildsInProcess (callback i this eff) \<le> maxConcurrentBuildsToProcess (callback i this eff)"
    using Cons.prems callback_count [of i this eff] by (simp add: callback_max)
  from Cons.IH [OF this] show ?case
    by (simp add: callback_max)
qed

lemma notify_bounded:
  assumes "numBuildsInProcess this \<le> maxConcurrentBuildsToProcess this"
  shows "numBuildsInProcess (notify i n this) \<le> maxConcurrentBuildsToProcess (notify i n this)
   \<and> maxConcurrentBuildsToProcess (notify i n this) = maxConcurrentBuildsToProcess this"
proof -
  obtain s' effs where d: "dispatch build_stream_configuration (pstream (processes this ! i)) n = (s', effs)"
    by (cases "dispatch build_stream_configuration (pstream (processes this ! i)) n")
  let ?this1 = "this\<lparr>processes := (processes this)[i := (processes this ! i)\<lparr>pstream := s'\<rparr>]\<rparr>"
  have "numBuildsInProcess ?this1 \<le> maxConcurrentBuildsToProcess ?this1"
    using assms by simp
  from foldl_callback_bounded [OF this, of i effs] d show ?thesis
    by (simp add: notify_def Let_def)
qed

lemma step_bounded:
  assumes "numBuildsInProcess this \<le> maxConcurrentBuildsToProcess this"
  shows "numBuildsInProcess (step this occ) \<le> maxConcurrentBuildsToProcess (step this occ)
   \<and> maxConcurrentBuildsToProcess (step this occ) = maxConcurrentBuildsToProcess this"
proof (cases "uncaught this \<noteq> None")
  case True
  with assms show ?thesis by (simp add: step_def)
next
  case False
  show ?thesis
  proof (cases occ)
    case (Build_received b)
    let ?this1 = "this\<lparr>pendingBuilds := pendingBuilds this @ [b]\<rparr>"
    have "numBuildsInProcess ?this1 \<le> maxConcurrentBuildsToProcess ?this1"
      using assms by simp
    from processPendingBuilds_bounded [OF this] False Build_received show ?thesis
      by (simp add: step_def enqueue_def processPendingBuilds_max)
  next
    case Timeout_fired
    let ?this1 = "this\<lparr>timeouts := timeouts this - 1\<rparr>"
    have "numBuildsInProcess ?this1 \<le> maxConcurrentBuildsToProcess ?this1"
      using assms by simp
    from processPendingBuilds_bounded [OF this] False Timeout_fired assms show ?thesis
      by (simp add: step_def processPendingBuilds_max)
  next
    case (Stream_notified i n)
    with False assms notify_bounded [OF assms, of i n] show ?thesis
      by (simp add: step_def)
  qed
qed

lemma execute_bounded:
  "numBuildsInProcess this \<le> maxConcurrentBuildsToProcess this \<Longrightarrow>
   numBuildsInProcess (execute this occs) \<le> maxConcurrentBuildsToProcess (execute this occs)
   \<and> maxConcurrentBuildsToProcess (execute this occs) = maxConcurrentBuildsToProcess this"
proof (induction occs arbitrary: this)
  case Nil
  then show ?case by (simp add: execute_def)
next
  case (Cons occ occs)
  from step_bounded [OF Cons.prems, of occ]
  have a: "numBuildsInProcess (step this occ) \<le> maxConcurrentBuildsToProcess (step this occ)"
    and b: "maxConcurrentBuildsToProcess (step this occ) = maxConcurrentBuildsToProcess this"
    by simp_all
  from Cons.IH [OF a] b show ?case
    by (simp add: execute_def)
qed

text \<open>
  Claim C5. For every concurrency limit \<open>n \<ge> 0\<close> and every sequence of builds received,
  timeouts run and stream notifications (completions among them, and bursts of more than
  \<open>n\<close> builds), \<^verbatim>\<open>numBuildsInProcess\<close> never exceeds \<open>n\<close>.
\<close>

theorem admitted_never_exceeds_limit:
  "0 \<le> n \<Longrightarrow> numBuildsInProcess (execute (new_BuildProcessor url n classes) occs) \<le> n"
proof -
  assume "0 \<le> n"
  then have "numBuildsInProcess (new_BuildProcessor url n classes)
     \<le> maxConcurrentBuildsToProcess (new_BuildProcessor url n classes)"
    by (simp add: new_BuildProcessor_def)
  from execute_bounded [OF this, of occs] show ?thesis
    by (simp add: new_BuildProcessor_def)
qed

theorem admitted_never_exceeds_limit_witness:
  "(0::int) \<le> 1 \<and>
   numBuildsInProcess (execute (new_BuildProcessor GRADLE_ENTERPRISE_SERVER_URL 1 BUILD_EVENT_HANDLERS)
     [Build_received (Build ''a''), Build_received (Build ''b''), Build_received (Build ''c'')]) \<le> 1"
  using admitted_never_exceeds_limit
    [of 1 GRADLE_ENTERPRISE_SERVER_URL BUILD_EVENT_HANDLERS
        "[Build_received (Build ''a''), Build_received (Build ''b''), Build_received (Build ''c'')]"]
  by simp

lemma map_list_update_same:
  "f y = f (xs ! i) \<Longrightarrow> map f (xs[i := y]) = map f xs"
proof (cases "i < length xs")
  case True
  assume "f y = f (xs ! i)"
  with True show ?thesis
    by (simp add: map_update list_update_same_conv)
next
  case False
  then show ?thesis
    by (simp add: list_update_beyond)
qed

lemma processBuild_admits:
  assumes "uncaught (processBuild this b) = None"
  shows "map pbuild (processes (processBuild this b)) = map pbuild (processes this) @ [b]"
  using assms by (simp add: processBuild_def Let_def split: sum.splits)

lemma processPendingBuilds_order:
  assumes "uncaught (processPendingBuilds this) = None"
  shows "map pbuild (processes (processPendingBuilds this)) @ pendingBuilds (processPendingBuilds this)
       = map pbuild (processes this) @ pendingBuilds this"
proof (cases "pendingBuilds this")
  case Nil
  then show ?thesis by (simp add: processPendingBuilds_def)
next
  case (Cons b rest)
  show ?thesis
  proof (cases "numBuildsInProcess this < maxConcurrentBuildsToProcess this")
    case True
    with Cons have e: "processPendingBuilds this = processBuild (this\<lparr>pendingBuilds := rest\<rparr>) b"
      by (simp add: processPendingBuilds_def)
    with assms have "uncaught (processBuild (this\<lparr>pendingBuilds := rest\<rparr>) b) = None"
      by simp
    from processBuild_admits [OF this] Cons show ?thesis
      by (simp add: e processBuild_scheduler)
  next
    case False
    with Cons show ?thesis by (simp add: processPendingBuilds_def)
  qed
qed

lemma record_calls_builds:
  "map pbuild (processes (record_calls i outcome this)) = map pbuild (processes this)"
  by (simp add: record_calls_def Let_def map_list_update_same)

lemma callback_order:
  "map pbuild (processes (callback i this eff)) = map pbuild (processes this)
   \<and> pendingBuilds (callback i this eff) = pendingBuilds this"
  by (cases eff)
     (simp_all add: callback_def oncomplete_def onBuildEvent_def finishedProcessingBuild_def
        record_calls_scheduler record_calls_builds Let_def)

lemma foldl_callback_order:
  "map pbuild (processes (foldl (callback i) this effs)) = map pbuild (processes this)
   \<and> pendingBuilds (foldl (callback i) this effs) = pendingBuilds this"
  by (induction effs arbitrary: this) (simp_all add: callback_order)

lemma notify_order:
  "map pbuild (processes (notify i n this)) = map pbuild (processes this)
   \<and> pendingBuilds (notify i n this) = pendingBuilds this"
  by (simp add: notify_def Let_def foldl_callback_order map_list_update_same split: prod.splits)

lemma step_order:
  assumes "uncaught (step this occ) = None"
  shows "map pbuild (processes (step this occ)) @ pendingBuilds (step this occ)
       = map pbuild (processes this) @ pendingBuilds this @ received [occ]"
proof (cases "uncaught this \<noteq> None")
  case True
  with assms show ?thesis by (simp add: step_def)
next
  case False
  show ?thesis
  proof (cases occ)
    case (Build_received b)
    with False assms
    have "uncaught (processPendingBuilds (this\<lparr>pendingBuilds := pendingBuilds this @ [b]\<rparr>)) = None"
      by (simp add: step_def enqueue_def)
    from processPendingBuilds_order [OF this] False Build_received show ?thesis
      by (simp add: step_def enqueue_def)
  next
    case Timeout_fired
    show ?thesis
    proof (cases "timeouts this = 0")
      case True
      with False Timeout_fired show ?thesis by (simp add: step_def)
    next
      case nz: False
      with False Timeout_fired assms
      have "uncaught (processPendingBuilds (this\<lparr>timeouts := timeouts this - 1\<rparr>)) = None"
        by (simp add: step_def)
      from processPendingBuilds_order [OF this] False Timeout_fired nz show ?thesis
        by (simp add: step_def)
    qed
  next
    case (Stream_notified i n)
    with False show ?thesis
      by (simp add: step_def notify_order)
  qed
qed

lemma step_uncaught: "uncaught this \<noteq> None \<Longrightarrow> step this occ = this"
  by (simp add: step_def)

lemma execute_uncaught: "uncaught this \<noteq> None \<Longrightarrow> execute this occs = this"
  by (induction occs) (simp_all add: execute_def step_uncaught)

lemma execute_Cons: "execute this (occ # occs) = execute (step this occ) occs"
  by (simp add: execute_def)

lemma received_Cons: "received (occ # occs) = received [occ] @ received occs"
  by (cases occ) simp_all

lemma execute_order:
  "uncaught (execute this occs) = None \<Longrightarrow>
   map pbuild (processes (execute this occs)) @ pendingBuilds (execute this occs)
     = map pbuild (processes this) @ pendingBuilds this @ received occs"
proof (induction occs arbitrary: this)
  case Nil
  then show ?case by (simp add: execute_def)
next
  case (Cons occ occs)
  from Cons.prems have u: "uncaught (execute (step this occ) occs) = None"
    by (simp only: execute_Cons)
  have "uncaught (step this occ) = None"
  proof (rule ccontr)
    assume "uncaught (step this occ) \<noteq> None"
    then have "execute (step this occ) occs = step this occ"
      by (rule execute_uncaught)
    with u \<open>uncaught (step this occ) \<noteq> None\<close> show False by simp
  qed
  from step_order [OF this] Cons.IH [OF u] show ?case
    by (simp only: execute_Cons received_Cons [of occ occs]) simp
qed

text \<open>
  Claim C7. An admission attempt that finds the queue non-empty and fewer builds admitted than
  the limit removes the head of the queue, adds one to the count and passes that build to
  \<^verbatim>\<open>processBuild\<close>, which starts its process unless making the handlers throws; any other
  attempt changes nothing. One attempt admits one build. As long as the program runs, the
  builds admitted so far, in the order of their admission, followed by the queue, are the
  builds received, in the order received: admission is first in, first out, and no build
  overtakes an earlier one.
\<close>

theorem admission_takes_the_head_in_fifo_order:
  "(pendingBuilds this = b # rest
      \<and> numBuildsInProcess this < maxConcurrentBuildsToProcess this \<longrightarrow>
        processPendingBuilds this = processBuild (this\<lparr>pendingBuilds := rest\<rparr>) b
        \<and> pendingBuilds (processPendingBuilds this) = rest
        \<and> numBuildsInProcess (processPendingBuilds this) = numBuildsInProcess this + 1
        \<and> (uncaught (processPendingBuilds this) = None \<longrightarrow>
             map pbuild (processes (processPendingBuilds this))
               = map pbuild (processes this) @ [b]))
   \<and> (pendingBuilds this = []
        \<or> \<not> numBuildsInProcess this < maxConcurrentBuildsToProcess this \<longrightarrow>
        processPendingBuilds this = this)
   \<and> (uncaught (execute (new_BuildProcessor url n classes) occs) = None \<longrightarrow>
        map pbuild (processes (execute (new_BuildProcessor url n classes) occs))
          @ pendingBuilds (execute (new_BuildProcessor url n classes) occs)
        = received occs)"
proof (intro conjI impI)
  assume a: "pendingBuilds this = b # rest
      \<and> numBuildsInProcess this < maxConcurrentBuildsToProcess this"
  then show e: "processPendingBuilds this = processBuild (this\<lparr>pendingBuilds := rest\<rparr>) b"
    by (simp add: processPendingBuilds_def)
  show "pendingBuilds (processPendingBuilds this) = rest"
    by (simp add: e processBuild_scheduler)
  show "numBuildsInProcess (processPendingBuilds this) = numBuildsInProcess this + 1"
    by (simp add: e processBuild_scheduler)
  show "map pbuild (processes (processPendingBuilds this)) = map pbuild (processes this) @ [b]"
    if "uncaught (processPendingBuilds this) = None"
    using that processBuild_admits [of "this\<lparr>pendingBuilds := rest\<rparr>" b] by (simp add: e)
next
  assume "pendingBuilds this = []
        \<or> \<not> numBuildsInProcess this < maxConcurrentBuildsToProcess this"
  then show "processPendingBuilds this = this"
    by (auto simp: processPendingBuilds_def split: list.splits)
next
  assume "uncaught (execute (new_BuildProcessor url n classes) occs) = None"
  from execute_order [OF this] show
    "map pbuild (processes (execute (new_BuildProcessor url n classes) occs))
          @ pendingBuilds (execute (new_BuildProcessor url n classes) occs)
        = received occs"
    by (simp add: new_BuildProcessor_def)
qed

theorem admission_takes_the_head_in_fifo_order_witness:
  "pendingBuilds (processPendingBuilds
      ((new_BuildProcessor GRADLE_ENTERPRISE_SERVER_URL 1 BUILD_EVENT_HANDLERS)
         \<lparr>pendingBuilds := [Build ''a'', Build ''b'']\<rparr>)) = [Build ''b'']
   \<and> processPendingBuilds
      ((new_BuildProcessor GRADLE_ENTERPRISE_SERVER_URL 1 BUILD_EVENT_HANDLERS)
         \<lparr>numBuildsInProcess := 1, pendingBuilds := [Build ''b'']\<rparr>)
     = (new_BuildProcessor GRADLE_ENTERPRISE_SERVER_URL 1 BUILD_EVENT_HANDLERS)
         \<lparr>numBuildsInProcess := 1, pendingBuilds := [Build ''b'']\<rparr>
   \<and> map pbuild (processes (execute
        (new_BuildProcessor GRADLE_ENTERPRISE_SERVER_URL 1 BUILD_EVENT_HANDLERS)
        [Build_received (Build ''a''), Build_received (Build ''b'')]))
      @ pendingBuilds (execute
        (new_BuildProcessor GRADLE_ENTERPRISE_SERVER_URL 1 BUILD_EVENT_HANDLERS)
        [Build_received (Build ''a''), Build_received (Build ''b'')])
     = [Build ''a'', Build ''b'']"
proof -
  let ?new = "new_BuildProcessor GRADLE_ENTERPRISE_SERVER_URL 1 BUILD_EVENT_HANDLERS"
  let ?this1 = "?new\<lparr>pendingBuilds := [Build ''a'', Build ''b'']\<rparr>"
  let ?this2 = "?new\<lparr>numBuildsInProcess := 1, pendingBuilds := [Build ''b'']\<rparr>"
  let ?occs = "[Build_received (Build ''a''), Build_received (Build ''b'')]"
  have u: "uncaught (execute ?new ?occs) = None"
    by code_simp
  have a: "pendingBuilds ?this1 = Build ''a'' # [Build ''b'']
      \<and> numBuildsInProcess ?this1 < maxConcurrentBuildsToProcess ?this1"
    by (simp add: new_BuildProcessor_def)
  have c: "pendingBuilds ?this2 = []
      \<or> \<not> numBuildsInProcess ?this2 < maxConcurrentBuildsToProcess ?this2"
    by (simp add: new_BuildProcessor_def)
  from a admission_takes_the_head_in_fifo_order
        [of ?this1 "Build ''a''" "[Build ''b'']" GRADLE_ENTERPRISE_SERVER_URL 1
            BUILD_EVENT_HANDLERS ?occs]
  have 1: "pendingBuilds (processPendingBuilds ?this1) = [Build ''b'']"
    by blast
  from u admission_takes_the_head_in_fifo_order
        [of ?this1 "Build ''a''" "[Build ''b'']" GRADLE_ENTERPRISE_SERVER_URL 1
            BUILD_EVENT_HANDLERS ?occs]
  have "map pbuild (processes (execute ?new ?occs)) @ pendingBuilds (execute ?new ?occs)
      = received ?occs"
    by blast
  then have 2: "map pbuild (processes (execute ?new ?occs)) @ pendingBuilds (execute ?new ?occs)
      = [Build ''a'', Build ''b'']"
    by simp
  from c admission_takes_the_head_in_fifo_order
        [of ?this2 "Build ''b''" "[]" GRADLE_ENTERPRISE_SERVER_URL 1 BUILD_EVENT_HANDLERS "[]"]
  have 3: "processPendingBuilds ?this2 = ?this2"
    by blast
  from 1 2 3 show ?thesis
    by blast
qed

section \<open>Properties of the handler registry\<close>

lemma set_getHandledEventTypesForHandlerClass:
  "set (getHandledEventTypesForHandlerClass c) =
     {drop 2 name | name. name \<in> set c \<and> take 2 name = ''on''}"
  by (auto simp: getHandledEventTypesForHandlerClass_def)

lemma complete_not_handled:
  assumes "''oncomplete'' \<notin> set c"
  shows "''complete'' \<notin> set (getHandledEventTypesForHandlerClass c)"
proof
  assume "''complete'' \<in> set (getHandledEventTypesForHandlerClass c)"
  then obtain name where n: "name \<in> set c" "take 2 name = ''on''" "drop 2 name = ''complete''"
    by (auto simp: set_getHandledEventTypesForHandlerClass)
  have "name = take 2 name @ drop 2 name"
    by simp
  with n have "name = ''oncomplete''"
    by simp
  with n(1) assms show False
    by simp
qed

lemma foldl_Set_add:
  "set (foldl Set_add acc xs) = set acc \<union> set xs
   \<and> (distinct acc \<longrightarrow> distinct (foldl Set_add acc xs))"
  by (induction xs arbitrary: acc) (auto simp: Set_add_def)

lemma new_Set_set: "set (new_Set xs) = set xs"
  by (simp add: new_Set_def foldl_Set_add)

lemma new_Set_distinct: "distinct (new_Set xs)"
  using foldl_Set_add [of "[]" xs] by (simp add: new_Set_def)

lemma foldl_concat_set:
  "set (foldl (\<lambda>eventTypes handlerClass. eventTypes @ f handlerClass) acc cs) =
     set acc \<union> (\<Union>c\<in>set cs. set (f c))"
  by (induction cs arbitrary: acc) auto

lemma set_getAllHandledEventTypes:
  "set (getAllHandledEventTypes cs) = (\<Union>c\<in>set cs. set (getHandledEventTypesForHandlerClass c))"
  by (simp add: getAllHandledEventTypes_def new_Set_set foldl_concat_set)

lemma addHandler_dom:
  "addHandler hs t h = Inr hs' \<Longrightarrow> dom hs' = insert t (dom hs)"
  by (auto simp: addHandler_def split: option.splits if_splits)


lemma addHandler_forEach_dom:
  "addHandler_forEach hs ts h = Inr hs' \<Longrightarrow> dom hs' = dom hs \<union> set ts"
proof (induction ts arbitrary: hs)
  case Nil
  then show ?case by simp
next
  case (Cons t ts)
  then obtain hs1 where a: "addHandler hs t h = Inr hs1" and b: "addHandler_forEach hs1 ts h = Inr hs'"
    by (auto split: sum.splits)
  from Cons.IH [OF b] addHandler_dom [OF a] show ?case
    by auto
qed


lemma addHandlerClass_dom:
  assumes "addHandlerClass b hs i c = Inr hs'"
  shows "dom hs' = dom hs \<union> set (getHandledEventTypesForHandlerClass c)
           \<union> (if ''complete'' \<in> set c then {''complete''} else {})"
proof -
  let ?h = "\<lparr>hclass = c, hbuild = b, hindex = i\<rparr>"
  from assms obtain hs1 where
    a: "addHandler_forEach hs (getHandledEventTypesForHandlerClass c) ?h = Inr hs1"
    and b: "(if ''complete'' \<in> set c then addHandler hs1 ''complete'' ?h else Inr hs1) = Inr hs'"
    by (auto simp: addHandlerClass_def Let_def split: sum.splits)
  show ?thesis
  proof (cases "''complete'' \<in> set c")
    case True
    with b have "addHandler hs1 ''complete'' ?h = Inr hs'"
      by simp
    from addHandler_dom [OF this] addHandler_forEach_dom [OF a] True show ?thesis
      by auto
  next
    case False
    with b have "hs1 = hs'"
      by simp
    with addHandler_forEach_dom [OF a] False show ?thesis
      by auto
  qed
qed


lemma reduce_handlerClasses_dom:
  "reduce_handlerClasses b hs i cs = Inr hs' \<Longrightarrow>
   dom hs' = dom hs \<union> (\<Union>c\<in>set cs. set (getHandledEventTypesForHandlerClass c))
     \<union> (if \<exists>c\<in>set cs. ''complete'' \<in> set c then {''complete''} else {})"
proof (induction cs arbitrary: hs i)
  case Nil
  then show ?case by simp
next
  case (Cons c cs)
  then obtain hs1 where a: "addHandlerClass b hs i c = Inr hs1"
    and r: "reduce_handlerClasses b hs1 (Suc i) cs = Inr hs'"
    by (auto split: sum.splits)
  from Cons.IH [OF r] addHandlerClass_dom [OF a] show ?case
    by (auto split: if_splits)
qed









lemma createBuildEventHandlers_dom:
  assumes "createBuildEventHandlers cs b = Inr hs"
  shows "dom hs = set (getAllHandledEventTypes cs)
     \<union> (if \<exists>c\<in>set cs. ''complete'' \<in> set c then {''complete''} else {})"
  using reduce_handlerClasses_dom [of b Map.empty 0 cs hs] assms
  by (simp add: createBuildEventHandlers_def set_getAllHandledEventTypes)










section \<open>Properties of the build processor\<close>

lemma list_all_update:
  "list_all P xs \<Longrightarrow> (i < length xs \<Longrightarrow> P y) \<Longrightarrow> list_all P (xs[i := y])"
proof (cases "i < length xs")
  case True
  assume "list_all P xs" and "i < length xs \<Longrightarrow> P y"
  with True show ?thesis
    using set_update_subset_insert [of xs i y] by (auto simp: list_all_iff)
next
  case False
  assume "list_all P xs"
  with False show ?thesis
    by (simp add: list_update_beyond)
qed

lemma process_consistent_update:
  "process_consistent url classes (p\<lparr>pinvoked := v\<rparr>) = process_consistent url classes p"
  "process_consistent url classes (p\<lparr>pstream := s\<rparr>) = process_consistent url classes p"
  by (simp_all add: process_consistent_def)

lemma consistent_new: "consistent url classes (new_BuildProcessor url n classes)"
  by (simp add: consistent_def new_BuildProcessor_def)

lemma consistent_processBuild:
  "consistent url classes this \<Longrightarrow> consistent url classes (processBuild this b)"
  by (auto simp: consistent_def processBuild_def Let_def process_consistent_def
      createBuildEventStreamUrl_def split: sum.splits)

lemma consistent_pendingBuilds:
  "consistent url classes (this\<lparr>pendingBuilds := v\<rparr>) = consistent url classes this"
  by (simp add: consistent_def)

lemma consistent_timeouts:
  "consistent url classes (this\<lparr>timeouts := t\<rparr>) = consistent url classes this"
  by (simp add: consistent_def)

lemma consistent_processPendingBuilds:
  "consistent url classes this \<Longrightarrow> consistent url classes (processPendingBuilds this)"
  by (simp add: processPendingBuilds_def consistent_processBuild consistent_pendingBuilds
      split: list.splits)

lemma consistent_record_calls:
  assumes "consistent url classes this"
  shows "consistent url classes (record_calls i outcome this)"
proof -
  let ?p = "processes this ! i"
  from assms have a: "list_all (process_consistent url classes) (processes this)"
    by (simp add: consistent_def)
  have "list_all (process_consistent url classes)
          ((processes this)[i := ?p\<lparr>pinvoked := pinvoked ?p @ fst outcome\<rparr>])"
  proof (rule list_all_update [OF a])
    assume "i < length (processes this)"
    with a have "process_consistent url classes ?p"
      by (simp add: list_all_length)
    then show "process_consistent url classes (?p\<lparr>pinvoked := pinvoked ?p @ fst outcome\<rparr>)"
      by (simp add: process_consistent_update)
  qed
  with assms show ?thesis
    by (simp add: consistent_def record_calls_def Let_def)
qed

lemma consistent_finishedProcessingBuild:
  "consistent url classes (finishedProcessingBuild this) = consistent url classes this"
  by (simp add: consistent_def finishedProcessingBuild_def)

lemma consistent_callback:
  "consistent url classes this \<Longrightarrow> consistent url classes (callback i this eff)"
  by (cases eff)
     (simp_all add: callback_def oncomplete_def onBuildEvent_def Let_def
        consistent_record_calls consistent_finishedProcessingBuild)

lemma consistent_foldl_callback:
  "consistent url classes this \<Longrightarrow> consistent url classes (foldl (callback i) this effs)"
  by (induction effs arbitrary: this) (simp_all add: consistent_callback)

lemma consistent_notify:
  assumes "consistent url classes this"
  shows "consistent url classes (notify i n this)"
proof -
  let ?p = "processes this ! i"
  obtain s' effs where d: "dispatch build_stream_configuration (pstream ?p) n = (s', effs)"
    by (cases "dispatch build_stream_configuration (pstream ?p) n")
  from assms have a: "list_all (process_consistent url classes) (processes this)"
    by (simp add: consistent_def)
  have "list_all (process_consistent url classes) ((processes this)[i := ?p\<lparr>pstream := s'\<rparr>])"
  proof (rule list_all_update [OF a])
    assume "i < length (processes this)"
    with a have "process_consistent url classes ?p"
      by (simp add: list_all_length)
    then show "process_consistent url classes (?p\<lparr>pstream := s'\<rparr>)"
      by (simp add: process_consistent_update)
  qed
  with assms have "consistent url classes
      (this\<lparr>processes := (processes this)[i := ?p\<lparr>pstream := s'\<rparr>]\<rparr>)"
    by (simp add: consistent_def)
  then have "consistent url classes
      (foldl (callback i) (this\<lparr>processes := (processes this)[i := ?p\<lparr>pstream := s'\<rparr>]\<rparr>) effs)"
    by (rule consistent_foldl_callback)
  with d show ?thesis
    by (simp add: notify_def Let_def)
qed

lemma consistent_step:
  "consistent url classes this \<Longrightarrow> consistent url classes (step this occ)"
  by (cases occ)
     (simp_all add: step_def enqueue_def consistent_processPendingBuilds
        consistent_pendingBuilds consistent_timeouts consistent_notify)

lemma consistent_execute:
  "consistent url classes this \<Longrightarrow> consistent url classes (execute this occs)"
  by (induction occs arbitrary: this) (simp_all add: execute_def consistent_step)

lemma consistent_reachable:
  "consistent url classes (execute (new_BuildProcessor url n classes) occs)"
  by (rule consistent_execute) (rule consistent_new)

lemma dispatch_On_complete:
  "On_complete \<in> set (snd (dispatch cfg s n)) \<longleftrightarrow> readyState s \<noteq> CLOSED \<and> is_complete_signal n"
  using count_dispatch [of cfg s n] count_list_0_iff [of "snd (dispatch cfg s n)" On_complete]
  by (auto split: if_splits)































lemma callback_keeps_slot:
  "eff \<noteq> On_complete \<Longrightarrow>
   numBuildsInProcess (callback i this eff) = numBuildsInProcess this
   \<and> timeouts (callback i this eff) = timeouts this
   \<and> pendingBuilds (callback i this eff) = pendingBuilds this"
  by (cases eff) (simp_all add: callback_def onBuildEvent_def record_calls_scheduler)

lemma foldl_callback_keeps_slot:
  "On_complete \<notin> set effs \<Longrightarrow>
   numBuildsInProcess (foldl (callback i) this effs) = numBuildsInProcess this
   \<and> timeouts (foldl (callback i) this effs) = timeouts this
   \<and> pendingBuilds (foldl (callback i) this effs) = pendingBuilds this"
proof (induction effs arbitrary: this)
  case Nil
  then show ?case by simp
next
  case (Cons eff effs)
  then have "eff \<noteq> On_complete" and "On_complete \<notin> set effs"
    by auto
  with Cons.IH [of "callback i this eff"] callback_keeps_slot [of eff i this] show ?case
    by simp
qed

lemma notify_keeps_slot:
  assumes "\<not> is_complete_signal n"
  shows "numBuildsInProcess (notify i n this) = numBuildsInProcess this
   \<and> timeouts (notify i n this) = timeouts this
   \<and> pendingBuilds (notify i n this) = pendingBuilds this"
proof -
  let ?p = "processes this ! i"
  obtain s' effs where d: "dispatch build_stream_configuration (pstream ?p) n = (s', effs)"
    by (cases "dispatch build_stream_configuration (pstream ?p) n")
  from assms dispatch_On_complete [of build_stream_configuration "pstream ?p" n] d
  have "On_complete \<notin> set effs"
    by auto
  from foldl_callback_keeps_slot [OF this] d show ?thesis
    by (simp add: notify_def Let_def)
qed

text \<open>
  Claim C2, at a failing input. With a limit of one, two builds are received; the stream of
  the first opens and then reports 101 errors with status while connecting; the posted
  timeouts, if any, run. The stream ends closed and no \<^verbatim>\<open>complete\<close> was called, but the count
  is still one, no admission attempt was posted, and the second build is still queued.
\<close>

theorem terminal_failure_keeps_the_slot:
  "snapshot (execute (new_BuildProcessor GRADLE_ENTERPRISE_SERVER_URL 1 BUILD_EVENT_HANDLERS)
      terminal_failure) = (1, [Build ''b2''], 0, [CLOSED], [[]], None)"
  by code_simp

text \<open>
  Claim C8, as the code has it. The event types found for a class are the names of its members
  that start with \<^verbatim>\<open>on\<close>, without that prefix. The set kept by the processor is the union of
  these over the classes, without duplicates; it is computed by the constructor and never
  changes. The address of the stream of every admitted build is the server address, then
  \<^verbatim>\<open>/build-export/v1/build/\<close>, the build id, \<^verbatim>\<open>/events?eventTypes=\<close> and the elements of that
  set joined by commas. When no class declares \<^verbatim>\<open>oncomplete\<close>, the set is also the set of keys
  of the handler map of a build without the key \<^verbatim>\<open>complete\<close>.
\<close>

theorem event_types_and_subscription_url:
  "set (getHandledEventTypesForHandlerClass c) =
      {drop 2 name | name. name \<in> set c \<and> take 2 name = ''on''}
   \<and> set (getAllHandledEventTypes classes) =
      (\<Union>c\<in>set classes. set (getHandledEventTypesForHandlerClass c))
   \<and> distinct (getAllHandledEventTypes classes)
   \<and> allHandledEventTypes (execute (new_BuildProcessor url n classes) occs) =
      getAllHandledEventTypes classes
   \<and> (\<forall>p\<in>set (processes (execute (new_BuildProcessor url n classes) occs)).
        purl p = url @ ''/build-export/v1/build/'' @ buildId (pbuild p) @ ''/events?eventTypes=''
                  @ join '','' (getAllHandledEventTypes classes))
   \<and> (createBuildEventHandlers classes b = Inr hs \<and> (\<forall>c\<in>set classes. ''oncomplete'' \<notin> set c) \<longrightarrow>
        dom hs - {''complete''} = set (getAllHandledEventTypes classes))"
proof (intro conjI impI ballI)
  show "set (getHandledEventTypesForHandlerClass c) =
      {drop 2 name | name. name \<in> set c \<and> take 2 name = ''on''}"
    by (rule set_getHandledEventTypesForHandlerClass)
  show "set (getAllHandledEventTypes classes) =
      (\<Union>c\<in>set classes. set (getHandledEventTypesForHandlerClass c))"
    by (rule set_getAllHandledEventTypes)
  show "distinct (getAllHandledEventTypes classes)"
    by (simp add: getAllHandledEventTypes_def new_Set_distinct)
  have c: "consistent url classes (execute (new_BuildProcessor url n classes) occs)"
    by (rule consistent_reachable)
  then show "allHandledEventTypes (execute (new_BuildProcessor url n classes) occs) =
      getAllHandledEventTypes classes"
    by (simp add: consistent_def)
  show "purl p = url @ ''/build-export/v1/build/'' @ buildId (pbuild p) @ ''/events?eventTypes=''
                  @ join '','' (getAllHandledEventTypes classes)"
    if "p \<in> set (processes (execute (new_BuildProcessor url n classes) occs))" for p
    using c that by (simp add: consistent_def list_all_iff process_consistent_def)
next
  assume a: "createBuildEventHandlers classes b = Inr hs \<and> (\<forall>c\<in>set classes. ''oncomplete'' \<notin> set c)"
  then have "''complete'' \<notin> set (getAllHandledEventTypes classes)"
    by (simp add: set_getAllHandledEventTypes complete_not_handled)
  with a createBuildEventHandlers_dom [of classes b hs]
  show "dom hs - {''complete''} = set (getAllHandledEventTypes classes)"
    by (auto split: if_splits)
qed

theorem event_types_and_subscription_url_witness:
  "purl (processes (execute
      (new_BuildProcessor GRADLE_ENTERPRISE_SERVER_URL 6 BUILD_EVENT_HANDLERS) stream_opened) ! 0) =
     ''https://localhost:5050/build-export/v1/build/abc/events?eventTypes=BuildStarted,BuildFinished,TaskFinished''
   \<and> (case createBuildEventHandlers BUILD_EVENT_HANDLERS build_abc of
        Inl e \<Rightarrow> False
      | Inr hs \<Rightarrow> dom hs - {''complete''} = {''BuildStarted'', ''BuildFinished'', ''TaskFinished''})"
proof -
  let ?w = "execute (new_BuildProcessor GRADLE_ENTERPRISE_SERVER_URL 6 BUILD_EVENT_HANDLERS)
         stream_opened"
  have t: "getAllHandledEventTypes BUILD_EVENT_HANDLERS =
      [''BuildStarted'', ''BuildFinished'', ''TaskFinished'']"
    by code_simp
  have "0 < length (processes ?w)"
    by code_simp
  then have m: "processes ?w ! 0 \<in> set (processes ?w)"
    by simp
  have b: "pbuild (processes ?w ! 0) = build_abc"
    by code_simp
  have h1: "\<forall>c\<in>set BUILD_EVENT_HANDLERS. ''oncomplete'' \<notin> set c"
    by code_simp
  have "\<not> isl (createBuildEventHandlers BUILD_EVENT_HANDLERS build_abc)"
    by code_simp
  then obtain hs where h2: "createBuildEventHandlers BUILD_EVENT_HANDLERS build_abc = Inr hs"
    by (cases "createBuildEventHandlers BUILD_EVENT_HANDLERS build_abc") simp_all
  note T = event_types_and_subscription_url
    [of "[]" BUILD_EVENT_HANDLERS GRADLE_ENTERPRISE_SERVER_URL 6 stream_opened build_abc hs]
  from T m have "purl (processes ?w ! 0) =
      GRADLE_ENTERPRISE_SERVER_URL @ ''/build-export/v1/build/''
        @ buildId (pbuild (processes ?w ! 0)) @ ''/events?eventTypes=''
        @ join '','' (getAllHandledEventTypes BUILD_EVENT_HANDLERS)"
    by blast
  then have 1: "purl (processes ?w ! 0) =
     ''https://localhost:5050/build-export/v1/build/abc/events?eventTypes=BuildStarted,BuildFinished,TaskFinished''"
    by (simp only: t b) (simp add: build_abc_def GRADLE_ENTERPRISE_SERVER_URL_def)
  from T h1 h2 have "dom hs - {''complete''} = set (getAllHandledEventTypes BUILD_EVENT_HANDLERS)"
    by blast
  then have "dom hs - {''complete''} = {''BuildStarted'', ''BuildFinished'', ''TaskFinished''}"
    by (simp add: t)
  with 1 h2 show ?thesis
    by simp
qed

text \<open>
  Claim C8 as stated fails: for a class that declares \<^verbatim>\<open>oncomplete\<close> the event type
  \<^verbatim>\<open>complete\<close> is in the set and in the address, while the keys of the handler map without
  the key \<^verbatim>\<open>complete\<close> are none.
\<close>

theorem oncomplete_is_an_event_type_and_the_reserved_key:
  "getAllHandledEventTypes [OnCompleteOnly] = [''complete'']
   \<and> purl (processes (execute
        (new_BuildProcessor GRADLE_ENTERPRISE_SERVER_URL 6 [OnCompleteOnly]) stream_opened) ! 0) =
       ''https://localhost:5050/build-export/v1/build/abc/events?eventTypes=complete''
   \<and> (case createBuildEventHandlers [OnCompleteOnly] build_abc of
        Inl e \<Rightarrow> False
      | Inr hs \<Rightarrow> dom hs - {''complete''} = {})"
proof -
  have 1: "getAllHandledEventTypes [OnCompleteOnly] = [''complete'']"
    by code_simp
  have 2: "purl (processes (execute
        (new_BuildProcessor GRADLE_ENTERPRISE_SERVER_URL 6 [OnCompleteOnly]) stream_opened) ! 0) =
       ''https://localhost:5050/build-export/v1/build/abc/events?eventTypes=complete''"
    by code_simp
  have "\<not> isl (createBuildEventHandlers [OnCompleteOnly] build_abc)"
    by code_simp
  then obtain hs where h: "createBuildEventHandlers [OnCompleteOnly] build_abc = Inr hs"
    by (cases "createBuildEventHandlers [OnCompleteOnly] build_abc") simp_all
  have "\<not> (\<exists>c\<in>set [OnCompleteOnly]. ''complete'' \<in> set c)"
    by (simp add: OnCompleteOnly_def)
  with createBuildEventHandlers_dom [OF h] have "dom hs = set (getAllHandledEventTypes [OnCompleteOnly])"
    by simp
  then have "dom hs - {''complete''} = {}"
    by (simp only: 1) simp
  with 1 2 h show ?thesis
    by simp
qed







end
